theory Spec2Isabelle
  imports Main "HOL-Library.Word" "HOL-Library.List_Lexorder"
begin

unbundle bit_operations_syntax

section \<open>Python values\<close>

text \<open>
  A Python \<open>str\<close> is a sequence of Unicode code points (numbers below \<open>0x110000\<close>,
  lone surrogates included); \<open>bytes\<close> is a sequence of octets. The fields of a job offer
  hold either a \<open>str\<close> or \<open>None\<close>: the scraper passes \<open>None\<close> for a missing link or date
  and for the description.
\<close>

type_synonym codepoint = nat
type_synonym str = "codepoint list"
type_synonym byte = "8 word"
type_synonym bytes = "byte list"
type_synonym u32 = "32 word"

datatype pyval = PyNone | PyStr str

datatype error = UnicodeEncodeError | TypeError | KeyError

text \<open>An exception leaves the rest of the computation out.\<close>

definition then_do :: "error + 'a \<Rightarrow> ('a \<Rightarrow> error + 'b) \<Rightarrow> error + 'b" where
  "then_do m f = (case m of Inl e \<Rightarrow> Inl e | Inr x \<Rightarrow> f x)"

text \<open>An ASCII literal as a Python \<open>str\<close>.\<close>

definition lit :: "string \<Rightarrow> str" where
  "lit s = map of_char s"

text \<open>What an f-string substitutes for \<open>{v}\<close>: \<open>format(v)\<close>.\<close>

fun format_value :: "pyval \<Rightarrow> str" where
  "format_value PyNone = lit ''None''"
| "format_value (PyStr s) = s"

subsection \<open>\<open>str.encode("utf-8")\<close>\<close>

text \<open>
  The strict UTF-8 codec: one to four octets per code point, and
  \<open>UnicodeEncodeError\<close> at a surrogate (\<open>U+D800\<close> to \<open>U+DFFF\<close>).
\<close>

definition encode_codepoint :: "codepoint \<Rightarrow> error + bytes" where
  "encode_codepoint c =
     (if c < 0x80 then Inr [of_nat c]
      else if c < 0x800 then
        Inr [of_nat (0xC0 + c div 64), of_nat (0x80 + c mod 64)]
      else if 0xD800 \<le> c \<and> c < 0xE000 then Inl UnicodeEncodeError
      else if c < 0x10000 then
        Inr [of_nat (0xE0 + c div 4096), of_nat (0x80 + c div 64 mod 64),
             of_nat (0x80 + c mod 64)]
      else
        Inr [of_nat (0xF0 + c div 262144), of_nat (0x80 + c div 4096 mod 64),
             of_nat (0x80 + c div 64 mod 64), of_nat (0x80 + c mod 64)])"

fun encode_utf8 :: "str \<Rightarrow> error + bytes" where
  "encode_utf8 [] = Inr []"
| "encode_utf8 (c # cs) =
     (case encode_codepoint c of
        Inl e \<Rightarrow> Inl e
      | Inr bs \<Rightarrow> (case encode_utf8 cs of Inl e \<Rightarrow> Inl e | Inr rest \<Rightarrow> Inr (bs @ rest)))"

definition is_surrogate :: "codepoint \<Rightarrow> bool" where
  "is_surrogate c = (0xD800 \<le> c \<and> c < 0xE000)"

definition no_surrogates :: "str \<Rightarrow> bool" where
  "no_surrogates s = list_all (\<lambda>c. \<not> is_surrogate c) s"

text \<open>The code points of a \<open>str\<close> are below \<open>0x110000\<close>.\<close>

definition valid_str :: "str \<Rightarrow> bool" where
  "valid_str s = list_all (\<lambda>c. c < 0x110000) s"

text \<open>The octets of one code point as numbers, surrogates aside.\<close>

definition utf8_octets :: "codepoint \<Rightarrow> nat list" where
  "utf8_octets c =
     (if c < 0x80 then [c]
      else if c < 0x800 then [0xC0 + c div 64, 0x80 + c mod 64]
      else if c < 0x10000 then [0xE0 + c div 4096, 0x80 + c div 64 mod 64, 0x80 + c mod 64]
      else [0xF0 + c div 262144, 0x80 + c div 4096 mod 64, 0x80 + c div 64 mod 64,
            0x80 + c mod 64])"

subsection \<open>\<open>hashlib.md5\<close>\<close>

text \<open>MD5 as in RFC 1321: padding, 64-octet blocks, four rounds of sixteen steps.\<close>

definition md5_K :: "u32 list" where
  "md5_K =
    [0xd76aa478, 0xe8c7b756, 0x242070db, 0xc1bdceee,
     0xf57c0faf, 0x4787c62a, 0xa8304613, 0xfd469501,
     0x698098d8, 0x8b44f7af, 0xffff5bb1, 0x895cd7be,
     0x6b901122, 0xfd987193, 0xa679438e, 0x49b40821,
     0xf61e2562, 0xc040b340, 0x265e5a51, 0xe9b6c7aa,
     0xd62f105d, 0x02441453, 0xd8a1e681, 0xe7d3fbc8,
     0x21e1cde6, 0xc33707d6, 0xf4d50d87, 0x455a14ed,
     0xa9e3e905, 0xfcefa3f8, 0x676f02d9, 0x8d2a4c8a,
     0xfffa3942, 0x8771f681, 0x6d9d6122, 0xfde5380c,
     0xa4beea44, 0x4bdecfa9, 0xf6bb4b60, 0xbebfbc70,
     0x289b7ec6, 0xeaa127fa, 0xd4ef3085, 0x04881d05,
     0xd9d4d039, 0xe6db99e5, 0x1fa27cf8, 0xc4ac5665,
     0xf4292244, 0x432aff97, 0xab9423a7, 0xfc93a039,
     0x655b59c3, 0x8f0ccc92, 0xffeff47d, 0x85845dd1,
     0x6fa87e4f, 0xfe2ce6e0, 0xa3014314, 0x4e0811a1,
     0xf7537e82, 0xbd3af235, 0x2ad7d2bb, 0xeb86d391]"

definition md5_s :: "nat list" where
  "md5_s =
    [7, 12, 17, 22, 7, 12, 17, 22, 7, 12, 17, 22, 7, 12, 17, 22,
     5, 9, 14, 20, 5, 9, 14, 20, 5, 9, 14, 20, 5, 9, 14, 20,
     4, 11, 16, 23, 4, 11, 16, 23, 4, 11, 16, 23, 4, 11, 16, 23,
     6, 10, 15, 21, 6, 10, 15, 21, 6, 10, 15, 21, 6, 10, 15, 21]"

definition rotl32 :: "u32 \<Rightarrow> nat \<Rightarrow> u32" where
  "rotl32 x n = push_bit n x OR drop_bit (32 - n) x"

definition md5_F :: "nat \<Rightarrow> u32 \<Rightarrow> u32 \<Rightarrow> u32 \<Rightarrow> u32" where
  "md5_F i b c d =
     (if i < 16 then (b AND c) OR (NOT b AND d)
      else if i < 32 then (d AND b) OR (NOT d AND c)
      else if i < 48 then b XOR c XOR d
      else c XOR (b OR NOT d))"

definition md5_g :: "nat \<Rightarrow> nat" where
  "md5_g i =
     (if i < 16 then i
      else if i < 32 then (5 * i + 1) mod 16
      else if i < 48 then (3 * i + 5) mod 16
      else (7 * i) mod 16)"

type_synonym md5_state = "u32 \<times> u32 \<times> u32 \<times> u32"

definition md5_init :: md5_state where
  "md5_init = (0x67452301, 0xefcdab89, 0x98badcfe, 0x10325476)"

fun md5_step :: "u32 list \<Rightarrow> md5_state \<Rightarrow> nat \<Rightarrow> md5_state" where
  "md5_step M (a, b, c, d) i =
     (d, b + rotl32 (md5_F i b c d + a + md5_K ! i + M ! md5_g i) (md5_s ! i), b, c)"

fun le_word32 :: "bytes \<Rightarrow> u32" where
  "le_word32 [] = 0"
| "le_word32 (b # bs) = ucast b OR push_bit 8 (le_word32 bs)"

definition word32_le :: "u32 \<Rightarrow> bytes" where
  "word32_le w = map (\<lambda>i. ucast (drop_bit (8 * i) w)) [0..<4]"

definition le64 :: "nat \<Rightarrow> bytes" where
  "le64 n = map (\<lambda>i. ucast (drop_bit (8 * i) (of_nat n :: 64 word))) [0..<8]"

function chunks :: "nat \<Rightarrow> 'a list \<Rightarrow> 'a list list" where
  "chunks n xs = (if n = 0 \<or> xs = [] then [] else take n xs # chunks n (drop n xs))"
  by pat_completeness auto
termination
  by (relation "measure (\<lambda>(n, xs). length xs)") auto

declare chunks.simps [simp del]

definition md5_pad :: "bytes \<Rightarrow> bytes" where
  "md5_pad m =
     m @ [0x80] @ replicate ((119 - length m mod 64) mod 64) 0 @ le64 (8 * length m)"

fun md5_block :: "md5_state \<Rightarrow> bytes \<Rightarrow> md5_state" where
  "md5_block (a0, b0, c0, d0) block =
     (case foldl (md5_step (map le_word32 (chunks 4 block))) (a0, b0, c0, d0) [0..<64] of
        (a, b, c, d) \<Rightarrow> (a0 + a, b0 + b, c0 + c, d0 + d))"

definition md5 :: "bytes \<Rightarrow> bytes" where
  "md5 m =
     (case foldl md5_block md5_init (chunks 64 (md5_pad m)) of
        (a, b, c, d) \<Rightarrow> concat (map word32_le [a, b, c, d]))"

text \<open>\<open>hexdigest()\<close>: two lowercase hexadecimal digits per octet, high nibble first.\<close>

definition hex_digit :: "nat \<Rightarrow> char" where
  "hex_digit n = ''0123456789abcdef'' ! n"

definition hexdigest :: "bytes \<Rightarrow> string" where
  "hexdigest bs = concat (map (\<lambda>b. [hex_digit (unat b div 16), hex_digit (unat b mod 16)]) bs)"

section \<open>\<open>models/offers.py\<close>\<close>

record JobOffer =
  title :: pyval
  company_name :: pyval
  location :: pyval
  posted_date :: pyval
  description :: pyval
  url :: pyval

text \<open>
  \<open>get_hash\<close>: the f-string joins company name, title and location with nothing in
  between, the result is encoded and hashed.
\<close>

definition hash_content :: "JobOffer \<Rightarrow> str" where
  "hash_content j =
     format_value (company_name j) @ format_value (title j) @ format_value (location j)"

definition get_hash :: "JobOffer \<Rightarrow> error + string" where
  "get_hash j =
     (case encode_utf8 (hash_content j) of
        Inl e \<Rightarrow> Inl e
      | Inr content \<Rightarrow> Inr (hexdigest (md5 content)))"


text \<open>
  \<open>to\<close>: the instance dictionary, one entry per dataclass field in declaration order.
  A \<open>dict\<close> is an association list with distinct keys, in insertion order.
\<close>

type_synonym pydict = "(string \<times> pyval) list"

definition to :: "JobOffer \<Rightarrow> pydict" where
  "to j =
     [(''title'', title j), (''company_name'', company_name j), (''location'', location j),
      (''posted_date'', posted_date j), (''description'', description j), (''url'', url j)]"

definition identity_triple :: "JobOffer \<Rightarrow> pyval \<times> pyval \<times> pyval" where
  "identity_triple j = (company_name j, title j, location j)"

section \<open>\<open>utils/markdown_export.py\<close>\<close>

text \<open>\<open>job[k]\<close> raises \<open>KeyError\<close> at a missing key.\<close>

definition getitem :: "pydict \<Rightarrow> string \<Rightarrow> error + pyval" where
  "getitem d k = (case map_of d k of None \<Rightarrow> Inl KeyError | Some v \<Rightarrow> Inr v)"

text \<open>
  \<open>sorted(jobs, key=lambda x: x["posted_date"], reverse=True)\<close>. The key of every job
  is computed first. With two jobs or more every key takes part in a \<open><\<close> comparison,
  and \<open><\<close> with \<open>None\<close> on either side raises \<open>TypeError\<close>; with fewer than two jobs
  nothing is compared. Strings compare lexicographically by code point. A reversed sort
  is stable: the list is reversed, sorted ascending by a stable sort and reversed again.
\<close>

fun posted_dates :: "pydict list \<Rightarrow> error + pyval list" where
  "posted_dates [] = Inr []"
| "posted_dates (job # jobs) =
     then_do (getitem job ''posted_date'')
       (\<lambda>k. then_do (posted_dates jobs) (\<lambda>ks. Inr (k # ks)))"

fun the_str :: "pyval \<Rightarrow> str" where
  "the_str (PyStr s) = s"
| "the_str PyNone = []"

definition sorted_by_posted_date :: "pydict list \<Rightarrow> error + pydict list" where
  "sorted_by_posted_date jobs =
     then_do (posted_dates jobs)
       (\<lambda>ks. if length jobs < 2 then Inr jobs
             else if PyNone \<in> set ks then Inl TypeError
             else Inr (rev (map snd (sort_key fst (rev (zip (map the_str ks) jobs))))))"

definition nl :: str where
  "nl = [10]"

function decimal :: "nat \<Rightarrow> str" where
  "decimal n = (if n < 10 then [48 + n] else decimal (n div 10) @ [48 + n mod 10])"
  by pat_completeness auto
termination
  by (relation "measure (\<lambda>n. n)") auto

declare decimal.simps [simp del]

definition header :: "nat \<Rightarrow> str" where
  "header n =
     lit ''# Summer 2025 internship opportunities'' @ nl @ nl @
     lit ''This list gets updated daily.'' @ nl @ nl @
     lit ''Posted on refers to the date when the offer was posted on LinkedIn.'' @ nl @ nl @
     lit ''## Available positions ('' @ decimal n @ lit '' offers)'' @ nl @ nl"

definition section_text :: "pyval \<Rightarrow> pyval \<Rightarrow> pyval \<Rightarrow> pyval \<Rightarrow> pyval \<Rightarrow> str" where
  "section_text c t l p u =
     lit ''### '' @ format_value c @ nl @
     lit ''- **Position:** '' @ format_value t @ nl @
     lit ''- **Location:** '' @ format_value l @ nl @
     lit ''- **Posted on:** '' @ format_value p @ nl @
     lit ''- [Apply here]('' @ format_value u @ lit '')'' @ nl @ nl"

definition job_section :: "pydict \<Rightarrow> error + str" where
  "job_section job =
     then_do (getitem job ''company_name'') (\<lambda>c.
     then_do (getitem job ''title'') (\<lambda>t.
     then_do (getitem job ''location'') (\<lambda>l.
     then_do (getitem job ''posted_date'') (\<lambda>p.
     then_do (getitem job ''url'') (\<lambda>u.
     Inr (section_text c t l p u))))))"

fun emit_sections :: "str \<Rightarrow> pydict list \<Rightarrow> error + str" where
  "emit_sections content [] = Inr content"
| "emit_sections content (job # jobs) =
     then_do (job_section job) (\<lambda>s. emit_sections (content @ s) jobs)"

definition markdown_content :: "pydict list \<Rightarrow> error + str" where
  "markdown_content jobs =
     then_do (sorted_by_posted_date jobs) (emit_sections (header (length jobs)))"

text \<open>The octets written to the output file, opened with \<open>encoding="utf-8"\<close>.\<close>

definition export_to_markdown :: "pydict list \<Rightarrow> error + bytes" where
  "export_to_markdown jobs = then_do (markdown_content jobs) encode_utf8"

section \<open>The job repository\<close>

text \<open>
  \<open>repository/jobs.py\<close> (\<open>JobRepository\<close>, whose \<open>add_jobs\<close> and \<open>get_all_jobs\<close> are called
  by \<open>main\<close> in \<open>scraper.py\<close>) is not among the sources: the repository is modelled from
  the spec. The fingerprint function is the total function of the spec's contract and
  a parameter here; \<open>main\<close> passes records whose fingerprint is \<open>get_hash\<close>.
\<close>

text \<open>
  Modelled from the spec: the state of \<open>JobRepository\<close>, a mapping from fingerprint to
  record with unique keys, kept in insertion order.
\<close>

type_synonym ('k, 'r) repository = "('k \<times> 'r) list"

text \<open>
  Modelled from the spec: the body of the loop of \<open>JobRepository.add_jobs\<close>. It computes
  the fingerprint of the record; when the fingerprint is not yet a key of the mapping
  it inserts the record as it is and increments the count of this call, and otherwise
  it skips the record.
\<close>

definition add_job ::
  "('r \<Rightarrow> 'k) \<Rightarrow> ('k, 'r) repository \<times> nat \<Rightarrow> 'r \<Rightarrow> ('k, 'r) repository \<times> nat" where
  "add_job fingerprint st r =
     (case st of (repo, new_count) \<Rightarrow>
        (case map_of repo (fingerprint r) of
           None \<Rightarrow> (repo @ [(fingerprint r, r)], new_count + 1)
         | Some _ \<Rightarrow> (repo, new_count)))"

text \<open>
  Modelled from the spec: \<open>JobRepository.add_jobs\<close>. The records are taken in order; the
  result is the number of records inserted by this call and the number of records held
  after it, next to the new state.
\<close>

definition add_jobs ::
  "('r \<Rightarrow> 'k) \<Rightarrow> ('k, 'r) repository \<Rightarrow> 'r list \<Rightarrow> (nat \<times> nat) \<times> ('k, 'r) repository" where
  "add_jobs fingerprint repo records =
     (case foldl (add_job fingerprint) (repo, 0) records of
        (repo', new_count) \<Rightarrow> ((new_count, length repo'), repo'))"

text \<open>The loop body of \<open>add_job\<close> on the mapping alone, without the count.\<close>

definition insert_unseen :: "('r \<Rightarrow> 'k) \<Rightarrow> ('k, 'r) repository \<Rightarrow> 'r \<Rightarrow> ('k, 'r) repository" where
  "insert_unseen fingerprint repo r =
     (case map_of repo (fingerprint r) of
        None \<Rightarrow> repo @ [(fingerprint r, r)]
      | Some _ \<Rightarrow> repo)"

text \<open>
  Modelled from the spec: \<open>JobRepository.get_all_jobs\<close>, every record held, in the order
  of insertion.
\<close>

definition get_all_jobs :: "('k, 'r) repository \<Rightarrow> 'r list" where
  "get_all_jobs repo = map snd repo"

text \<open>
  \<open>main\<close> creates the repository empty and calls \<open>add_jobs\<close> once per fetched batch:
  the states the repository can be in.
\<close>

definition run_batches :: "('r \<Rightarrow> 'k) \<Rightarrow> 'r list list \<Rightarrow> ('k, 'r) repository" where
  "run_batches fingerprint batches =
     foldl (\<lambda>repo records. snd (add_jobs fingerprint repo records)) [] batches"

section \<open>Example records\<close>

definition job_of :: "string \<Rightarrow> string \<Rightarrow> string \<Rightarrow> string \<Rightarrow> string \<Rightarrow> JobOffer" where
  "job_of c t l d u =
     \<lparr>title = PyStr (lit t), company_name = PyStr (lit c), location = PyStr (lit l),
      posted_date = PyStr (lit d), description = PyNone, url = PyStr (lit u)\<rparr>"

definition acme_backend_a :: JobOffer where
  "acme_backend_a = job_of ''Acme'' ''Backend Intern'' ''NYC'' ''2025-05-01'' ''A''"

definition acme_backend_b :: JobOffer where
  "acme_backend_b = job_of ''Acme'' ''Backend Intern'' ''NYC'' ''2025-05-02'' ''B''"

definition acme_frontend_c :: JobOffer where
  "acme_frontend_c = job_of ''Acme'' ''Frontend Intern'' ''NYC'' ''2025-05-02'' ''C''"

text \<open>
  A thousand records with pairwise distinct (company, title, location): the first two
  split the same text differently between company and title.
\<close>

definition colliding_batch :: "JobOffer list" where
  "colliding_batch =
     job_of ''ab'' ''c'' ''d'' [] [] # job_of ''a'' ''bc'' ''d'' [] [] #
     map (\<lambda>n. job_of (replicate n CHR ''x'') [] [] [] []) [0..<998]"

text \<open>A record with an absent company name, and one with a lone surrogate in it.\<close>

definition no_company :: JobOffer where
  "no_company =
     \<lparr>title = PyStr [], company_name = PyNone, location = PyStr [],
      posted_date = PyNone, description = PyNone, url = PyNone\<rparr>"

definition empty_company :: JobOffer where
  "empty_company =
     \<lparr>title = PyStr [], company_name = PyStr [], location = PyStr [],
      posted_date = PyNone, description = PyNone, url = PyNone\<rparr>"

definition surrogate_company :: JobOffer where
  "surrogate_company =
     \<lparr>title = PyStr [], company_name = PyStr [0xD800], location = PyStr [],
      posted_date = PyNone, description = PyNone, url = PyNone\<rparr>"

text \<open>A record whose title ends in a lone surrogate.\<close>

definition surrogate_title :: JobOffer where
  "surrogate_title =
     \<lparr>title = PyStr (lit ''Intern'' @ [0xDC00]), company_name = PyStr (lit ''Acme''),
      location = PyStr (lit ''NYC''), posted_date = PyNone, description = PyNone,
      url = PyNone\<rparr>"

text \<open>A record as the scraper builds it from a card without a \<open>time\<close> element.\<close>

definition undated :: JobOffer where
  "undated =
     \<lparr>title = PyStr (lit ''Data Intern''), company_name = PyStr (lit ''Acme''),
      location = PyStr (lit ''NYC''), posted_date = PyNone, description = PyNone,
      url = PyStr (lit ''D'')\<rparr>"

section \<open>Encoding and digest facts\<close>

lemma encode_codepoint_Inl_iff:
  "encode_codepoint c = Inl e \<longleftrightarrow> is_surrogate c \<and> e = UnicodeEncodeError"
  by (auto simp: encode_codepoint_def is_surrogate_def)

lemma encode_utf8_Inl_iff:
  "encode_utf8 s = Inl e \<longleftrightarrow> \<not> no_surrogates s \<and> e = UnicodeEncodeError"
proof (induction s)
  case Nil
  show ?case by (simp add: no_surrogates_def)
next
  case (Cons c cs)
  show ?case
  proof (cases "encode_codepoint c")
    case (Inl e')
    then show ?thesis
      using encode_codepoint_Inl_iff [of c e'] by (auto simp: no_surrogates_def)
  next
    case (Inr bs)
    then have "\<not> is_surrogate c"
      using encode_codepoint_Inl_iff [of c UnicodeEncodeError] by auto
    with Inr Cons show ?thesis
      by (auto simp: no_surrogates_def split: sum.splits)
  qed
qed

lemma no_surrogates_append [simp]:
  "no_surrogates (s @ t) \<longleftrightarrow> no_surrogates s \<and> no_surrogates t"
  by (simp add: no_surrogates_def)

lemma length_word32_le [simp]: "length (word32_le w) = 4"
  by (simp add: word32_le_def)

lemma length_md5: "length (md5 m) = 16"
  by (simp add: md5_def split: prod.splits)

lemma unat_byte_less: "unat (b :: byte) < 256"
proof -
  have "unat b < 2 ^ LENGTH(8)" by (rule unsigned_less)
  then show ?thesis by simp
qed

lemma length_hexdigest: "length (hexdigest bs) = 2 * length bs"
  by (induction bs) (simp_all add: hexdigest_def)

lemma hex_digit_in: "n < 16 \<Longrightarrow> hex_digit n \<in> set ''0123456789abcdef''"
  unfolding hex_digit_def by (rule nth_mem) simp

lemma set_hexdigest: "set (hexdigest bs) \<subseteq> set ''0123456789abcdef''"
proof -
  have "hex_digit (unat b div 16) \<in> set ''0123456789abcdef''" for b :: byte
  proof (rule hex_digit_in)
    show "unat b div 16 < 16" using unat_byte_less [of b] by simp
  qed
  moreover have "hex_digit (unat b mod 16) \<in> set ''0123456789abcdef''" for b :: byte
    by (rule hex_digit_in) simp
  ultimately show ?thesis
    unfolding hexdigest_def by (induction bs) auto
qed

lemma distinct_hex: "distinct ''0123456789abcdef''"
  by simp

lemma hex_digit_inj: "m < 16 \<Longrightarrow> n < 16 \<Longrightarrow> hex_digit m = hex_digit n \<Longrightarrow> m = n"
  unfolding hex_digit_def using distinct_hex by (simp add: nth_eq_iff_index_eq)

lemma hex_pair_inj:
  fixes a b :: byte
  assumes "hex_digit (unat a div 16) = hex_digit (unat b div 16)"
    and "hex_digit (unat a mod 16) = hex_digit (unat b mod 16)"
  shows "a = b"
proof -
  have la: "unat a < 256" by (rule unat_byte_less)
  have lb: "unat b < 256" by (rule unat_byte_less)
  have "unat a div 16 = unat b div 16"
    using assms(1) la lb by (intro hex_digit_inj) simp_all
  moreover have "unat a mod 16 = unat b mod 16"
    using assms(2) by (intro hex_digit_inj) simp_all
  ultimately have "unat a = unat b"
    by (metis div_mult_mod_eq)
  then show ?thesis by (simp add: word_unat_eq_iff)
qed

lemma hexdigest_inj: "hexdigest xs = hexdigest ys \<Longrightarrow> xs = ys"
proof (induction xs arbitrary: ys)
  case Nil
  then show ?case by (cases ys) (simp_all add: hexdigest_def)
next
  case (Cons x xs)
  then show ?case
  proof (cases ys)
    case Nil
    with Cons.prems show ?thesis by (simp add: hexdigest_def)
  next
    case (Cons y ys')
    with Cons.prems have "x = y" and "hexdigest xs = hexdigest ys'"
      by (auto simp: hexdigest_def intro: hex_pair_inj)
    with Cons.IH Cons show ?thesis by simp
  qed
qed

lemma get_hash_Inl_iff:
  "get_hash j = Inl e \<longleftrightarrow> \<not> no_surrogates (hash_content j) \<and> e = UnicodeEncodeError"
  using encode_utf8_Inl_iff [of "hash_content j" e]
  by (auto simp: get_hash_def split: sum.splits)

lemma get_hash_Inr_D:
  "get_hash j = Inr h \<Longrightarrow>
     \<exists>content. encode_utf8 (hash_content j) = Inr content \<and> h = hexdigest (md5 content)"
  by (auto simp: get_hash_def split: sum.splits)

lemma no_surrogates_lit_None: "no_surrogates (lit ''None'')"
  by (simp add: no_surrogates_def lit_def is_surrogate_def)

lemma get_hash_returns:
  assumes "no_surrogates (hash_content j)"
  shows "\<exists>content. encode_utf8 (hash_content j) = Inr content \<and>
           get_hash j = Inr (hexdigest (md5 content))"
proof (cases "encode_utf8 (hash_content j)")
  case (Inl e)
  with assms show ?thesis using encode_utf8_Inl_iff [of "hash_content j" e] by simp
next
  case (Inr content)
  then show ?thesis by (simp add: get_hash_def)
qed

lemma hexdigest_md5_shape:
  "length (hexdigest (md5 m)) = 32 \<and> set (hexdigest (md5 m)) \<subseteq> set ''0123456789abcdef''"
  using set_hexdigest [of "md5 m"] by (simp add: length_hexdigest length_md5)

lemma identity_triple_job_of:
  "identity_triple (job_of c t l d u) = (PyStr (lit c), PyStr (lit t), PyStr (lit l))"
  by (simp add: identity_triple_def job_of_def)

lemma hash_content_job_of: "hash_content (job_of c t l d u) = lit (c @ t @ l)"
  by (simp add: hash_content_def job_of_def lit_def)

lemma get_hash_cong: "hash_content j = hash_content j' \<Longrightarrow> get_hash j = get_hash j'"
  by (simp add: get_hash_def)

lemma lit_inj: "lit s = lit t \<Longrightarrow> length s = length t"
  by (metis length_map lit_def)

lemma colliding_batch_triples_distinct:
  "distinct (map identity_triple colliding_batch)"
proof -
  let ?g = "\<lambda>n. (PyStr (lit (replicate n CHR ''x'')), PyStr (lit []), PyStr (lit []))"
  have inj: "inj_on ?g (set [0..<998])"
    by (rule inj_onI) (auto dest: lit_inj)
  have d: "distinct (map ?g [0..<998])"
    using inj by (simp add: distinct_map)
  have a: "(PyStr (lit ''ab''), PyStr (lit ''c''), PyStr (lit ''d'')) \<notin> set (map ?g [0..<998])"
    by (auto simp: lit_def)
  have b: "(PyStr (lit ''a''), PyStr (lit ''bc''), PyStr (lit ''d'')) \<notin> set (map ?g [0..<998])"
    by (auto simp: lit_def)
  have ab: "(PyStr (lit ''ab''), PyStr (lit ''c''), PyStr (lit ''d'')) \<noteq>
            (PyStr (lit ''a''), PyStr (lit ''bc''), PyStr (lit ''d''))"
    by (simp add: lit_def)
  have "map identity_triple colliding_batch =
          (PyStr (lit ''ab''), PyStr (lit ''c''), PyStr (lit ''d'')) #
          (PyStr (lit ''a''), PyStr (lit ''bc''), PyStr (lit ''d'')) # map ?g [0..<998]"
    by (simp add: colliding_batch_def identity_triple_job_of comp_def)
  then show ?thesis using d a b ab by simp
qed

subsection \<open>The encoding loses nothing\<close>

lemma unat_of_nat_byte: "n < 256 \<Longrightarrow> unat (of_nat n :: byte) = n"
  by (simp add: unat_of_nat)

lemma map_unat_encode_codepoint:
  assumes "c < 0x110000" and "encode_codepoint c = Inr x"
  shows "map unat x = utf8_octets c"
proof -
  consider "c < 0x80" | "0x80 \<le> c" "c < 0x800" | "0x800 \<le> c" "c < 0x10000"
    | "0x10000 \<le> c"
    by linarith
  then show ?thesis
  proof cases
    case 1
    with assms show ?thesis
      by (auto simp: encode_codepoint_def utf8_octets_def unat_of_nat_byte simp del: of_nat_add)
  next
    case 2
    then have "0xC0 + c div 64 < 256" "0x80 + c mod 64 < 256" by simp_all
    with 2 assms show ?thesis
      by (auto simp: encode_codepoint_def utf8_octets_def unat_of_nat_byte simp del: of_nat_add)
  next
    case 3
    then have "0xE0 + c div 4096 < 256" "0x80 + c div 64 mod 64 < 256" "0x80 + c mod 64 < 256"
      by simp_all
    with 3 assms show ?thesis
      by (auto simp: encode_codepoint_def utf8_octets_def unat_of_nat_byte simp del: of_nat_add split: if_splits)
  next
    case 4
    with assms(1) have "0xF0 + c div 262144 < 256" "0x80 + c div 4096 mod 64 < 256"
      "0x80 + c div 64 mod 64 < 256" "0x80 + c mod 64 < 256"
      by simp_all
    with 4 assms show ?thesis
      by (auto simp: encode_codepoint_def utf8_octets_def unat_of_nat_byte simp del: of_nat_add split: if_splits)
  qed
qed


lemma div_mod_64_eq: "(a::nat) div 64 = b div 64 \<Longrightarrow> a mod 64 = b mod 64 \<Longrightarrow> a = b"
  by (metis div_mult_mod_eq)

lemma utf8_octets_cases:
  assumes "c < 0x110000"
  obtains "c < 0x80" "utf8_octets c = [c]"
  | "0x80 \<le> c" "c < 0x800" "utf8_octets c = [0xC0 + c div 64, 0x80 + c mod 64]"
      "c div 64 < 32"
  | "0x800 \<le> c" "c < 0x10000"
      "utf8_octets c = [0xE0 + c div 4096, 0x80 + c div 64 mod 64, 0x80 + c mod 64]"
      "c div 4096 < 16"
  | "0x10000 \<le> c"
      "utf8_octets c = [0xF0 + c div 262144, 0x80 + c div 4096 mod 64,
         0x80 + c div 64 mod 64, 0x80 + c mod 64]"
      "c div 262144 < 5"
proof -
  consider "c < 0x80" | "0x80 \<le> c" "c < 0x800" | "0x800 \<le> c" "c < 0x10000"
    | "0x10000 \<le> c"
    by linarith
  then show thesis
  proof cases
    case 1
    then show thesis using that(1) by (simp add: utf8_octets_def)
  next
    case 2
    then show thesis using that(2) by (simp add: utf8_octets_def)
  next
    case 3
    then show thesis using that(3) by (simp add: utf8_octets_def)
  next
    case 4
    with assms show thesis using that(4) by (simp add: utf8_octets_def)
  qed
qed

lemma utf8_octets_prefix_free:
  assumes "c < 0x110000" and "d < 0x110000"
    and "utf8_octets c @ r = utf8_octets d @ q"
  shows "c = d \<and> r = q"
  using assms(1)
proof (cases c rule: utf8_octets_cases)
  case 1
  note c = 1
  show ?thesis using assms(2)
  proof (cases d rule: utf8_octets_cases)
    case 1
    with assms(3) c show ?thesis by simp
  next
    case 2
    with assms(3) c show ?thesis by simp
  next
    case 3
    with assms(3) c show ?thesis by simp
  next
    case 4
    with assms(3) c show ?thesis by simp
  qed
next
  case 2
  note c = 2
  show ?thesis using assms(2)
  proof (cases d rule: utf8_octets_cases)
    case 1
    with assms(3) c show ?thesis by simp
  next
    case 2
    with assms(3) c have "c div 64 = d div 64" "c mod 64 = d mod 64" "r = q" by simp_all
    then show ?thesis by (auto dest: div_mod_64_eq)
  next
    case 3
    with assms(3) c show ?thesis by simp
  next
    case 4
    with assms(3) c show ?thesis by simp
  qed
next
  case 3
  note c = 3
  show ?thesis using assms(2)
  proof (cases d rule: utf8_octets_cases)
    case 1
    with assms(3) c show ?thesis by simp
  next
    case 2
    with assms(3) c show ?thesis by simp
  next
    case 3
    with assms(3) c have "c div 4096 = d div 4096" "c div 64 mod 64 = d div 64 mod 64"
      "c mod 64 = d mod 64" "r = q" by simp_all
    moreover have "c div 64 div 64 = d div 64 div 64"
      using \<open>c div 4096 = d div 4096\<close> by (simp add: div_mult2_eq [symmetric])
    ultimately have "c div 64 = d div 64" by (auto dest: div_mod_64_eq)
    with \<open>c mod 64 = d mod 64\<close> \<open>r = q\<close> show ?thesis by (auto dest: div_mod_64_eq)
  next
    case 4
    with assms(3) c show ?thesis by simp
  qed
next
  case 4
  note c = 4
  show ?thesis using assms(2)
  proof (cases d rule: utf8_octets_cases)
    case 1
    with assms(3) c show ?thesis by simp
  next
    case 2
    with assms(3) c show ?thesis by simp
  next
    case 3
    with assms(3) c show ?thesis by simp
  next
    case 4
    with assms(3) c have e: "c div 262144 = d div 262144"
      "c div 4096 mod 64 = d div 4096 mod 64"
      "c div 64 mod 64 = d div 64 mod 64" "c mod 64 = d mod 64" "r = q" by simp_all
    have "c div 4096 div 64 = d div 4096 div 64"
      using e(1) by (simp add: div_mult2_eq [symmetric])
    with e(2) have "c div 4096 = d div 4096" by (auto dest: div_mod_64_eq)
    then have "c div 64 div 64 = d div 64 div 64"
      by (simp add: div_mult2_eq [symmetric])
    with e(3) have "c div 64 = d div 64" by (auto dest: div_mod_64_eq)
    with e(4) e(5) show ?thesis by (auto dest: div_mod_64_eq)
  qed
qed


lemma utf8_octets_not_Nil: "utf8_octets c \<noteq> []"
  by (simp add: utf8_octets_def)

lemma map_unat_encode_utf8:
  "valid_str s \<Longrightarrow> encode_utf8 s = Inr bs \<Longrightarrow> map unat bs = concat (map utf8_octets s)"
proof (induction s arbitrary: bs)
  case Nil
  then show ?case by simp
next
  case (Cons c cs)
  from Cons.prems(2) obtain x rest where
    x: "encode_codepoint c = Inr x" and rest: "encode_utf8 cs = Inr rest" and bs: "bs = x @ rest"
    by (auto split: sum.splits)
  from Cons.prems(1) have "c < 0x110000" "valid_str cs" by (simp_all add: valid_str_def)
  then show ?case
    using x rest bs Cons.IH [of rest] by (simp add: map_unat_encode_codepoint)
qed

lemma concat_utf8_octets_inj:
  "valid_str s \<Longrightarrow> valid_str t \<Longrightarrow>
     concat (map utf8_octets s) = concat (map utf8_octets t) \<Longrightarrow> s = t"
proof (induction s arbitrary: t)
  case Nil
  then show ?case by (cases t) (simp_all add: utf8_octets_not_Nil)
next
  case (Cons c cs)
  show ?case
  proof (cases t)
    case Nil
    with Cons.prems show ?thesis by (simp add: utf8_octets_not_Nil)
  next
    case (Cons d ds)
    with Cons.prems have v: "c < 0x110000" "d < 0x110000" "valid_str cs" "valid_str ds"
      by (simp_all add: valid_str_def)
    from Cons Cons.prems have
      "utf8_octets c @ concat (map utf8_octets cs) = utf8_octets d @ concat (map utf8_octets ds)"
      by simp
    with v have "c = d" "concat (map utf8_octets cs) = concat (map utf8_octets ds)"
      using utf8_octets_prefix_free by blast+
    with v Cons Cons.IH [of ds] show ?thesis by simp
  qed
qed

lemma encode_utf8_inj:
  assumes "valid_str s" and "valid_str t"
    and "encode_utf8 s = Inr bs" and "encode_utf8 t = Inr bs"
  shows "s = t"
proof -
  have "concat (map utf8_octets s) = concat (map utf8_octets t)"
    using assms map_unat_encode_utf8 [of s bs] map_unat_encode_utf8 [of t bs] by simp
  with assms(1,2) show ?thesis by (rule concat_utf8_octets_inj)
qed

section \<open>Repository facts\<close>

lemma length_insert_unseen: "length repo \<le> length (insert_unseen fp repo r)"
  by (simp add: insert_unseen_def split: option.splits)

lemma length_foldl_insert_unseen: "length repo \<le> length (foldl (insert_unseen fp) repo rs)"
proof (induction rs arbitrary: repo)
  case Nil
  show ?case by simp
next
  case (Cons r rs)
  have "length repo \<le> length (insert_unseen fp repo r)" by (rule length_insert_unseen)
  also have "\<dots> \<le> length (foldl (insert_unseen fp) (insert_unseen fp repo r) rs)"
    by (rule Cons.IH)
  finally show ?case by simp
qed

lemma add_job_eq:
  "add_job fp (repo, n) r =
     (insert_unseen fp repo r, n + (length (insert_unseen fp repo r) - length repo))"
  by (simp add: add_job_def insert_unseen_def split: option.splits)

lemma foldl_add_job:
  "foldl (add_job fp) (repo, n) rs =
     (foldl (insert_unseen fp) repo rs,
      n + (length (foldl (insert_unseen fp) repo rs) - length repo))"
proof (induction rs arbitrary: repo n)
  case Nil
  show ?case by simp
next
  case (Cons r rs)
  let ?repo = "insert_unseen fp repo r"
  have l1: "length repo \<le> length ?repo" by (rule length_insert_unseen)
  have l2: "length ?repo \<le> length (foldl (insert_unseen fp) ?repo rs)"
    by (rule length_foldl_insert_unseen)
  have "foldl (add_job fp) (repo, n) (r # rs) =
          foldl (add_job fp) (?repo, n + (length ?repo - length repo)) rs"
    by (simp add: add_job_eq)
  also have "\<dots> = (foldl (insert_unseen fp) ?repo rs,
      n + (length ?repo - length repo) + (length (foldl (insert_unseen fp) ?repo rs) - length ?repo))"
    by (rule Cons.IH)
  finally show ?case using l1 l2 by simp
qed

lemma add_jobs_eq:
  "add_jobs fp repo rs =
     ((length (foldl (insert_unseen fp) repo rs) - length repo,
       length (foldl (insert_unseen fp) repo rs)),
      foldl (insert_unseen fp) repo rs)"
  by (simp add: add_jobs_def foldl_add_job)

lemma snd_add_jobs: "snd (add_jobs fp repo rs) = foldl (insert_unseen fp) repo rs"
  by (simp add: add_jobs_eq)

lemma keys_insert_unseen:
  "fst ` set (insert_unseen fp repo r) = insert (fp r) (fst ` set repo)"
proof (cases "map_of repo (fp r)")
  case None
  then show ?thesis by (simp add: insert_unseen_def)
next
  case (Some v)
  then have "fp r \<in> fst ` set repo"
    by (metis map_of_eq_None_iff option.distinct(1))
  with Some show ?thesis by (auto simp: insert_unseen_def)
qed

lemma keys_foldl_insert_unseen:
  "fst ` set (foldl (insert_unseen fp) repo rs) = fst ` set repo \<union> fp ` set rs"
  by (induction rs arbitrary: repo) (auto simp: keys_insert_unseen)

lemma insert_unseen_seen: "fp r \<in> fst ` set repo \<Longrightarrow> insert_unseen fp repo r = repo"
  by (cases "map_of repo (fp r)") (simp_all add: insert_unseen_def map_of_eq_None_iff)

lemma insert_unseen_new:
  "fp r \<notin> fst ` set repo \<Longrightarrow> insert_unseen fp repo r = repo @ [(fp r, r)]"
  by (cases "map_of repo (fp r)")
     (auto simp: insert_unseen_def map_of_eq_None_iff [symmetric])

lemma foldl_insert_unseen_seen:
  "fp ` set rs \<subseteq> fst ` set repo \<Longrightarrow> foldl (insert_unseen fp) repo rs = repo"
  by (induction rs) (simp_all add: insert_unseen_seen)

lemma foldl_insert_unseen_fresh:
  "distinct (map fp rs) \<Longrightarrow> fp ` set rs \<inter> fst ` set repo = {} \<Longrightarrow>
     foldl (insert_unseen fp) repo rs = repo @ map (\<lambda>r. (fp r, r)) rs"
proof (induction rs arbitrary: repo)
  case Nil
  show ?case by simp
next
  case (Cons r rs)
  from Cons.prems have new: "fp r \<notin> fst ` set repo" by auto
  from Cons.prems have "fp ` set rs \<inter> fst ` set (repo @ [(fp r, r)]) = {}" by auto
  with Cons.IH [of "repo @ [(fp r, r)]"] Cons.prems new show ?case
    by (simp add: insert_unseen_new)
qed

lemma count_foldl_insert_unseen:
  "length (foldl (insert_unseen fp) repo rs) - length repo =
     card (fp ` set rs - fst ` set repo)"
proof (induction rs arbitrary: repo)
  case Nil
  show ?case by simp
next
  case (Cons r rs)
  show ?case
  proof (cases "fp r \<in> fst ` set repo")
    case True
    then have "fp ` set (r # rs) - fst ` set repo = fp ` set rs - fst ` set repo" by auto
    with True Cons.IH [of repo] show ?thesis by (simp add: insert_unseen_seen)
  next
    case False
    let ?repo = "repo @ [(fp r, r)]"
    have le: "length ?repo \<le> length (foldl (insert_unseen fp) ?repo rs)"
      by (rule length_foldl_insert_unseen)
    have "fp ` set (r # rs) - fst ` set repo = insert (fp r) (fp ` set rs - fst ` set ?repo)"
      using False by auto
    moreover have "fp r \<notin> fp ` set rs - fst ` set ?repo" by simp
    ultimately have "card (fp ` set (r # rs) - fst ` set repo) =
        Suc (card (fp ` set rs - fst ` set ?repo))"
      by simp
    with False Cons.IH [of ?repo] le show ?thesis
      by (simp add: insert_unseen_new)
  qed
qed

lemma map_of_insert_unseen:
  "map_of (insert_unseen fp repo r) k =
     (case map_of repo k of Some x \<Rightarrow> Some x | None \<Rightarrow> if fp r = k then Some r else None)"
  by (cases "map_of repo (fp r)")
     (auto simp: insert_unseen_def map_add_def split: option.splits)

lemma map_of_foldl_insert_unseen:
  "map_of (foldl (insert_unseen fp) repo rs) k =
     (case map_of repo k of Some x \<Rightarrow> Some x | None \<Rightarrow> find (\<lambda>r. fp r = k) rs)"
proof (induction rs arbitrary: repo)
  case Nil
  show ?case by (simp split: option.splits)
next
  case (Cons r rs)
  show ?case
    by (simp add: Cons.IH map_of_insert_unseen split: option.splits)
qed

lemma distinct_keys_insert_unseen:
  "distinct (map fst repo) \<Longrightarrow> distinct (map fst (insert_unseen fp repo r))"
  by (cases "fp r \<in> fst ` set repo") (simp_all add: insert_unseen_seen insert_unseen_new)

lemma distinct_keys_foldl:
  "distinct (map fst repo) \<Longrightarrow> distinct (map fst (foldl (insert_unseen fp) repo rs))"
  by (induction rs arbitrary: repo) (simp_all add: distinct_keys_insert_unseen)

lemma keyed_insert_unseen:
  "map fp (map snd repo) = map fst repo \<Longrightarrow>
     map fp (map snd (insert_unseen fp repo r)) = map fst (insert_unseen fp repo r)"
  by (simp add: insert_unseen_def split: option.splits)

lemma keyed_foldl:
  "map fp (map snd repo) = map fst repo \<Longrightarrow>
     map fp (map snd (foldl (insert_unseen fp) repo rs)) =
     map fst (foldl (insert_unseen fp) repo rs)"
proof (induction rs arbitrary: repo)
  case Nil
  then show ?case by simp
next
  case (Cons r rs)
  from Cons.prems have "map fp (map snd (insert_unseen fp repo r)) = map fst (insert_unseen fp repo r)"
    by (rule keyed_insert_unseen)
  then show ?case using Cons.IH by simp
qed

lemma run_batches_eq: "run_batches fp batches = foldl (insert_unseen fp) [] (concat batches)"
proof -
  have "foldl (\<lambda>repo records. snd (add_jobs fp repo records)) repo batches =
          foldl (insert_unseen fp) repo (concat batches)" for repo
    by (induction batches arbitrary: repo) (simp_all add: snd_add_jobs)
  then show ?thesis by (simp add: run_batches_def)
qed

lemma foldl_insert_unseen_extends:
  "\<exists>new. foldl (insert_unseen fp) repo rs = repo @ new \<and> set (map snd new) \<subseteq> set rs"
proof (induction rs arbitrary: repo)
  case Nil
  show ?case by simp
next
  case (Cons r rs)
  obtain new where new: "foldl (insert_unseen fp) (insert_unseen fp repo r) rs =
      insert_unseen fp repo r @ new" "set (map snd new) \<subseteq> set rs"
    using Cons.IH [of "insert_unseen fp repo r"] by blast
  show ?case
  proof (cases "map_of repo (fp r)")
    case None
    with new have "foldl (insert_unseen fp) repo (r # rs) = repo @ ((fp r, r) # new)"
      by (simp add: insert_unseen_def)
    moreover have "set (map snd ((fp r, r) # new)) \<subseteq> set (r # rs)"
      using new(2) by auto
    ultimately show ?thesis by blast
  next
    case (Some v)
    with new have "foldl (insert_unseen fp) repo (r # rs) = repo @ new"
      by (simp add: insert_unseen_def)
    moreover have "set (map snd new) \<subseteq> set (r # rs)"
      using new(2) by auto
    ultimately show ?thesis by blast
  qed
qed

lemma add_jobs_snoc:
  "add_jobs fp repo (rs @ [r]) =
     (case add_jobs fp repo rs of
        ((n, held), repo') \<Rightarrow>
          (case map_of repo' (fp r) of
             None \<Rightarrow> ((n + 1, held + 1), repo' @ [(fp r, r)])
           | Some _ \<Rightarrow> ((n, held), repo')))"
proof -
  let ?R = "foldl (insert_unseen fp) repo rs"
  have le: "length repo \<le> length ?R" by (rule length_foldl_insert_unseen)
  have "foldl (insert_unseen fp) repo (rs @ [r]) = insert_unseen fp ?R r" by simp
  then show ?thesis
    using le by (auto simp: add_jobs_eq insert_unseen_def Suc_diff_le split: option.splits)
qed

lemma add_jobs_later_duplicate:
  assumes "fp r' \<in> fp ` set xs"
  shows "add_jobs fp repo (xs @ r' # zs) = add_jobs fp repo (xs @ zs)"
proof -
  have "fp r' \<in> fst ` set (foldl (insert_unseen fp) repo xs)"
    using assms by (simp add: keys_foldl_insert_unseen)
  then have "foldl (insert_unseen fp) repo (xs @ r' # zs) = foldl (insert_unseen fp) repo (xs @ zs)"
    by (simp add: insert_unseen_seen)
  then show ?thesis by (simp add: add_jobs_eq)
qed

lemma get_hash_acme_backend_a:
  "get_hash acme_backend_a = Inr ''c2ba8e2938c8c0d460ed3586bd4d27a9''"
  by code_simp

lemma get_hash_acme_frontend_c:
  "get_hash acme_frontend_c = Inr ''cb76328c20fe64005118707af282a42a''"
  by code_simp

lemma get_hash_acme_backend_b:
  "get_hash acme_backend_b = Inr ''c2ba8e2938c8c0d460ed3586bd4d27a9''"
proof -
  have "get_hash acme_backend_b = get_hash acme_backend_a"
    by (rule get_hash_cong)
       (simp add: acme_backend_a_def acme_backend_b_def hash_content_job_of)
  then show ?thesis by (simp add: get_hash_acme_backend_a)
qed

lemmas acme_hashes = get_hash_acme_backend_a get_hash_acme_backend_b get_hash_acme_frontend_c

lemma foldl_insert_unseen_retry:
  "foldl (insert_unseen fp) (foldl (insert_unseen fp) repo (take i rs)) rs =
     foldl (insert_unseen fp) repo rs"
proof -
  let ?R = "foldl (insert_unseen fp) repo (take i rs)"
  have "fp ` set (take i rs) \<subseteq> fst ` set ?R"
    by (simp add: keys_foldl_insert_unseen)
  then have again: "foldl (insert_unseen fp) ?R (take i rs) = ?R"
    by (rule foldl_insert_unseen_seen)
  have "foldl (insert_unseen fp) ?R (take i rs @ drop i rs) =
          foldl (insert_unseen fp) repo (take i rs @ drop i rs)"
    unfolding foldl_append again ..
  then show ?thesis by simp
qed

lemma get_hash_no_company: "get_hash no_company = Inr ''6adf97f83acf6453d4a6a4b1070f3754''"
  by code_simp

lemma get_hash_empty_company: "get_hash empty_company = Inr ''d41d8cd98f00b204e9800998ecf8427e''"
  by code_simp

lemma get_hash_lowercase:
  "get_hash (job_of ''acme'' ''Backend Intern'' ''NYC'' [] []) =
     Inr ''607f626bdee637c4d4c5a073a8a8ef65''"
  by code_simp

lemma get_hash_doubled_space:
  "get_hash (job_of ''Acme'' ''Backend  Intern'' ''NYC'' [] []) =
     Inr ''1a141fd9dd8bc8c62bdf70cbd0dcc6ec''"
  by code_simp

lemma get_hash_acme_backend:
  "get_hash (job_of ''Acme'' ''Backend Intern'' ''NYC'' d u) =
     Inr ''c2ba8e2938c8c0d460ed3586bd4d27a9''"
proof -
  have "get_hash (job_of ''Acme'' ''Backend Intern'' ''NYC'' d u) = get_hash acme_backend_a"
    by (rule get_hash_cong) (simp add: acme_backend_a_def hash_content_job_of)
  then show ?thesis by (simp add: get_hash_acme_backend_a)
qed


section \<open>Renderer facts\<close>

lemma getitem_to:
  "getitem (to j) ''title'' = Inr (title j)"
  "getitem (to j) ''company_name'' = Inr (company_name j)"
  "getitem (to j) ''location'' = Inr (location j)"
  "getitem (to j) ''posted_date'' = Inr (posted_date j)"
  "getitem (to j) ''description'' = Inr (description j)"
  "getitem (to j) ''url'' = Inr (url j)"
  by (simp_all add: getitem_def to_def)

lemma posted_dates_to: "posted_dates (map to js) = Inr (map posted_date js)"
  by (induction js) (simp_all add: getitem_to then_do_def)

lemma job_section_to:
  "job_section (to j) =
     Inr (section_text (company_name j) (title j) (location j) (posted_date j) (url j))"
  by (simp add: job_section_def getitem_to then_do_def)

lemma insort_key_fst_map:
  "insort_key fst (f x, g x) (map (\<lambda>j. (f j, g j)) ys) =
     map (\<lambda>j. (f j, g j)) (insort_key f x ys)"
  by (induction ys) simp_all

lemma sort_key_fst_map:
  "sort_key fst (map (\<lambda>j. (f j, g j)) xs) = map (\<lambda>j. (f j, g j)) (sort_key f xs)"
  by (induction xs) (simp_all add: insort_key_fst_map)

lemma zip_map_same: "zip (map f xs) (map g xs) = map (\<lambda>j. (f j, g j)) xs"
  by (induction xs) simp_all

lemma sorted_by_posted_date_to:
  assumes "PyNone \<notin> posted_date ` set js"
  shows "sorted_by_posted_date (map to js) =
           Inr (map to (rev (sort_key (\<lambda>j. the_str (posted_date j)) (rev js))))"
proof -
  let ?f = "\<lambda>j. the_str (posted_date j)"
  have "rev (map snd (sort_key fst (rev (zip (map the_str (map posted_date js)) (map to js))))) =
          map to (rev (sort_key ?f (rev js)))"
  proof -
    have z: "zip (map the_str (map posted_date js)) (map to js) = map (\<lambda>j. (?f j, to j)) js"
      using zip_map_same [of ?f js to] by (simp add: comp_def)
    have "sort_key fst (rev (map (\<lambda>j. (?f j, to j)) js)) =
        sort_key fst (map (\<lambda>j. (?f j, to j)) (rev js))"
      by (simp only: rev_map)
    also have "\<dots> = map (\<lambda>j. (?f j, to j)) (sort_key ?f (rev js))"
      by (rule sort_key_fst_map)
    finally have "sort_key fst (rev (zip (map the_str (map posted_date js)) (map to js))) =
        map (\<lambda>j. (?f j, to j)) (sort_key ?f (rev js))"
      by (simp only: z)
    then show ?thesis by (simp add: rev_map comp_def)
  qed
  moreover have "length js < 2 \<Longrightarrow> rev (sort_key ?f (rev js)) = js"
    by (cases js) (simp_all add: less_Suc_eq)
  ultimately show ?thesis
    using assms by (auto simp: sorted_by_posted_date_def posted_dates_to then_do_def)
qed

lemma emit_sections_to:
  "emit_sections content (map to js) =
     Inr (content @ concat (map (\<lambda>j. section_text (company_name j) (title j) (location j)
                                  (posted_date j) (url j)) js))"
  by (induction js arbitrary: content) (simp_all add: job_section_to then_do_def)

lemma markdown_content_dated:
  assumes "PyNone \<notin> posted_date ` set js"
  shows "markdown_content (map to js) =
           Inr (header (length js) @
                concat (map (\<lambda>j. section_text (company_name j) (title j) (location j)
                                    (posted_date j) (url j))
                          (rev (sort_key (\<lambda>j. the_str (posted_date j)) (rev js)))))"
  using assms
  by (simp add: markdown_content_def sorted_by_posted_date_to emit_sections_to then_do_def)

lemma newest_first:
  "sorted (rev (map (\<lambda>j. the_str (posted_date j))
     (rev (sort_key (\<lambda>j. the_str (posted_date j)) (rev js)))))
   \<and> set (rev (sort_key (\<lambda>j. the_str (posted_date j)) (rev js))) = set js
   \<and> length (rev (sort_key (\<lambda>j. the_str (posted_date j)) (rev js))) = length js"
  by (simp add: rev_map [symmetric])

section \<open>The claims\<close>

text \<open>
  C1. \<open>add_jobs\<close> on the empty batch returns \<open>(0, size)\<close> and leaves the mapping as it
  is. A batch is processed in order: after \<open>rs @ [r]\<close> the result is that of \<open>rs\<close>,
  followed by the insertion of \<open>r\<close> itself under its fingerprint, counted in both
  numbers, when the fingerprint is not yet a key, and by nothing otherwise. The first
  number returned is the number of fingerprints of the batch that were not keys before,
  the second is the number of records held afterwards; the records held before stay
  where they are, and each new entry holds a record of the batch. A record whose
  fingerprint occurred earlier in the same batch changes neither the mapping nor the
  counts.
\<close>

theorem add_jobs_spec:
  "add_jobs fp repo [] = ((0, length repo), repo)
   \<and> add_jobs fp repo (rs @ [r]) =
       (case add_jobs fp repo rs of
          ((n, held), repo') \<Rightarrow>
            (case map_of repo' (fp r) of
               None \<Rightarrow> ((n + 1, held + 1), repo' @ [(fp r, r)])
             | Some _ \<Rightarrow> ((n, held), repo')))
   \<and> fst (fst (add_jobs fp repo rs)) = card (fp ` set rs - fst ` set repo)
   \<and> snd (fst (add_jobs fp repo rs)) = length repo + fst (fst (add_jobs fp repo rs))
   \<and> snd (fst (add_jobs fp repo rs)) = length (get_all_jobs (snd (add_jobs fp repo rs)))
   \<and> (\<exists>new. snd (add_jobs fp repo rs) = repo @ new \<and> set (map snd new) \<subseteq> set rs)
   \<and> (fp r' \<in> fp ` set xs \<longrightarrow>
        add_jobs fp repo (xs @ r' # zs) = add_jobs fp repo (xs @ zs))"
proof -
  have le: "length repo \<le> length (foldl (insert_unseen fp) repo rs)"
    by (rule length_foldl_insert_unseen)
  have c1: "add_jobs fp repo [] = ((0, length repo), repo)"
    by (simp add: add_jobs_eq)
  have c3: "fst (fst (add_jobs fp repo rs)) = card (fp ` set rs - fst ` set repo)"
    by (simp add: add_jobs_eq count_foldl_insert_unseen)
  have c4: "snd (fst (add_jobs fp repo rs)) = length repo + fst (fst (add_jobs fp repo rs))"
    using le by (simp add: add_jobs_eq)
  have c5: "snd (fst (add_jobs fp repo rs)) = length (get_all_jobs (snd (add_jobs fp repo rs)))"
    by (simp add: add_jobs_eq get_all_jobs_def)
  have c6: "\<exists>new. snd (add_jobs fp repo rs) = repo @ new \<and> set (map snd new) \<subseteq> set rs"
    using foldl_insert_unseen_extends [of fp repo rs] by (simp add: snd_add_jobs)
  show ?thesis
    using c1 add_jobs_snoc [of fp repo rs r] c3 c4 c5 c6 add_jobs_later_duplicate [of fp r' xs repo zs]
    by blast
qed

theorem add_jobs_spec_witness:
  "get_hash acme_backend_b \<in> get_hash ` set [acme_backend_a]
   \<and> add_jobs get_hash [] ([acme_backend_a] @ acme_backend_b # [acme_frontend_c]) =
       add_jobs get_hash [] ([acme_backend_a] @ [acme_frontend_c])
   \<and> fst (add_jobs get_hash [] ([acme_backend_a] @ [acme_frontend_c])) = (2, 2)"
proof -
  have h: "get_hash acme_backend_b \<in> get_hash ` set [acme_backend_a]"
    by (simp add: acme_hashes)
  have "fst (add_jobs get_hash [] ([acme_backend_a] @ [acme_frontend_c])) = (2, 2)"
    by (simp add: add_jobs_def add_job_def acme_hashes)
  with h show ?thesis
    using add_jobs_spec [of get_hash "[]" "[]" acme_backend_a acme_backend_b
        "[acme_backend_a]" "[acme_frontend_c]"]
    by blast
qed

text \<open>
  C2. In every state reached from the empty repository by \<open>add_jobs\<close> calls, no
  fingerprint is a key twice, the record held under a fingerprint is the first record
  with that fingerprint in the whole input, a further \<open>add_jobs\<close> call leaves every
  record held where it is, and \<open>get_all_jobs\<close> returns records with pairwise distinct
  fingerprints. One more call leads to such a state again.
\<close>

theorem repository_first_seen_wins:
  "distinct (map fst (run_batches fp batches))
   \<and> map_of (run_batches fp batches) k = find (\<lambda>r. fp r = k) (concat batches)
   \<and> (map_of (run_batches fp batches) k = Some r \<longrightarrow>
        map_of (snd (add_jobs fp (run_batches fp batches) records)) k = Some r)
   \<and> distinct (map fp (get_all_jobs (run_batches fp batches)))
   \<and> snd (add_jobs fp (run_batches fp batches) records) = run_batches fp (batches @ [records])"
proof -
  let ?R = "run_batches fp batches"
  have d: "distinct (map fst ?R)"
    by (simp add: run_batches_eq distinct_keys_foldl)
  have f: "map_of ?R k = find (\<lambda>r. fp r = k) (concat batches)"
    by (simp add: run_batches_eq map_of_foldl_insert_unseen)
  have k: "map_of ?R k = Some r \<longrightarrow> map_of (snd (add_jobs fp ?R records)) k = Some r"
    by (simp add: snd_add_jobs map_of_foldl_insert_unseen)
  have "map fp (map snd ?R) = map fst ?R"
    unfolding run_batches_eq by (rule keyed_foldl) simp
  with d have "distinct (map fp (map snd ?R))"
    by (simp only:)
  then have g: "distinct (map fp (get_all_jobs ?R))"
    by (simp only: get_all_jobs_def)
  have s: "snd (add_jobs fp ?R records) = run_batches fp (batches @ [records])"
    by (simp add: run_batches_def)
  from d f k g s show ?thesis by blast
qed

theorem repository_first_seen_wins_witness:
  "map_of (run_batches get_hash [[acme_backend_a], [acme_backend_b, acme_frontend_c]])
      (Inr ''c2ba8e2938c8c0d460ed3586bd4d27a9'') = Some acme_backend_a
   \<and> map_of (snd (add_jobs get_hash
        (run_batches get_hash [[acme_backend_a], [acme_backend_b, acme_frontend_c]])
        [acme_backend_b])) (Inr ''c2ba8e2938c8c0d460ed3586bd4d27a9'') = Some acme_backend_a
   \<and> get_all_jobs (run_batches get_hash [[acme_backend_a], [acme_backend_b, acme_frontend_c]])
       = [acme_backend_a, acme_frontend_c]"
proof -
  have r: "run_batches get_hash [[acme_backend_a], [acme_backend_b, acme_frontend_c]] =
      [(Inr ''c2ba8e2938c8c0d460ed3586bd4d27a9'', acme_backend_a),
       (Inr ''cb76328c20fe64005118707af282a42a'', acme_frontend_c)]"
    by (simp add: run_batches_def add_jobs_def add_job_def acme_hashes)
  have h: "map_of (run_batches get_hash [[acme_backend_a], [acme_backend_b, acme_frontend_c]])
      (Inr ''c2ba8e2938c8c0d460ed3586bd4d27a9'') = Some acme_backend_a"
    by (simp add: r)
  have g: "get_all_jobs (run_batches get_hash [[acme_backend_a], [acme_backend_b, acme_frontend_c]])
       = [acme_backend_a, acme_frontend_c]"
    by (simp add: r get_all_jobs_def)
  from h g show ?thesis
    using repository_first_seen_wins [of get_hash
        "[[acme_backend_a], [acme_backend_b, acme_frontend_c]]"
        "Inr ''c2ba8e2938c8c0d460ed3586bd4d27a9''" acme_backend_a "[acme_backend_b]"]
    by blast
qed

text \<open>
  C5. A batch of \<open>N\<close> records with pairwise distinct fingerprints, added to the empty
  repository, gives \<open>(N, N)\<close>; added once more it gives \<open>(0, N)\<close> and the same state.
  From any state, adding a batch after a first part of it has already been committed
  ends in the state that adding the batch alone ends in.
\<close>

theorem add_jobs_idempotent:
  assumes "distinct (map fp rs)"
  shows "fst (add_jobs fp [] rs) = (length rs, length rs)
   \<and> fst (add_jobs fp (snd (add_jobs fp [] rs)) rs) = (0, length rs)
   \<and> snd (add_jobs fp (snd (add_jobs fp [] rs)) rs) = snd (add_jobs fp [] rs)
   \<and> snd (add_jobs fp (snd (add_jobs fp repo (take i rs))) rs) = snd (add_jobs fp repo rs)"
proof -
  let ?R = "map (\<lambda>r. (fp r, r)) rs"
  have first: "foldl (insert_unseen fp) [] rs = ?R"
    using assms foldl_insert_unseen_fresh [of fp rs "[]"] by simp
  have "fp ` set rs \<subseteq> fst ` set ?R" by force
  then have second: "foldl (insert_unseen fp) ?R rs = ?R"
    by (rule foldl_insert_unseen_seen)
  show ?thesis
    by (simp add: add_jobs_eq first second foldl_insert_unseen_retry)
qed

theorem add_jobs_idempotent_witness:
  "distinct (map get_hash [acme_backend_a, acme_frontend_c])
   \<and> fst (add_jobs get_hash [] [acme_backend_a, acme_frontend_c]) = (2, 2)
   \<and> fst (add_jobs get_hash (snd (add_jobs get_hash [] [acme_backend_a, acme_frontend_c]))
        [acme_backend_a, acme_frontend_c]) = (0, 2)
   \<and> snd (add_jobs get_hash
        (snd (add_jobs get_hash [] (take 1 [acme_backend_a, acme_frontend_c])))
        [acme_backend_a, acme_frontend_c]) =
      snd (add_jobs get_hash [] [acme_backend_a, acme_frontend_c])"
proof -
  have h: "distinct (map get_hash [acme_backend_a, acme_frontend_c])"
    by (simp add: acme_hashes)
  show ?thesis
    using h add_jobs_idempotent [OF h, of "[]" 1] by simp
qed

text \<open>
  C3, as it stands, fails: not every job record has a fingerprint. Company name,
  title and location of this record are strings, the title ends in a lone surrogate,
  and \<open>get_hash\<close> raises instead of returning a digest.
\<close>

theorem get_hash_surrogate_title_raises:
  "company_name surrogate_title = PyStr (lit ''Acme'')
   \<and> title surrogate_title = PyStr (lit ''Intern'' @ [0xDC00])
   \<and> location surrogate_title = PyStr (lit ''NYC'')
   \<and> get_hash surrogate_title = Inl UnicodeEncodeError"
proof -
  have "\<not> no_surrogates (hash_content surrogate_title)"
    by (simp add: surrogate_title_def hash_content_def no_surrogates_def is_surrogate_def)
  then have "get_hash surrogate_title = Inl UnicodeEncodeError"
    by (simp add: get_hash_Inl_iff)
  then show ?thesis by (simp add: surrogate_title_def)
qed

text \<open>
  C3, amended. For every job record whose company name, title and location hold no
  surrogate code point, the fingerprint is the hexadecimal rendering of an MD5 digest
  of 16 octets, that is 128 bits, computed over the UTF-8 encoding of the
  concatenation of company name, title and location in that exact order; posted
  date, description and URL do not take part. The values are hashed as they are, with
  no normalization: two different texts are encoded to different octets, two
  fingerprints differ exactly when the MD5 digests of the octets differ, and the
  lower-case company name and a doubled space in the title give fingerprints other
  than that of the record they were changed from.
\<close>

theorem get_hash_md5_of_concatenation:
  assumes "no_surrogates (hash_content j)"
  shows "(\<exists>content.
            encode_utf8 (format_value (company_name j) @ format_value (title j) @
                         format_value (location j)) = Inr content
            \<and> get_hash j = Inr (hexdigest (md5 content)) \<and> length (md5 content) = 16)
   \<and> get_hash (j\<lparr>posted_date := p, description := d, url := u\<rparr>) = get_hash j
   \<and> (valid_str (hash_content j) \<and> valid_str (hash_content j')
        \<and> hash_content j' \<noteq> hash_content j
        \<and> encode_utf8 (hash_content j) = Inr x \<and> encode_utf8 (hash_content j') = Inr y
        \<longrightarrow> x \<noteq> y)
   \<and> (encode_utf8 (hash_content j) = Inr x \<and> encode_utf8 (hash_content j') = Inr y
        \<longrightarrow> (get_hash j = get_hash j' \<longleftrightarrow> md5 x = md5 y))
   \<and> get_hash (job_of ''acme'' ''Backend Intern'' ''NYC'' [] []) \<noteq>
       get_hash (job_of ''Acme'' ''Backend Intern'' ''NYC'' [] [])
   \<and> get_hash (job_of ''Acme'' ''Backend  Intern'' ''NYC'' [] []) \<noteq>
       get_hash (job_of ''Acme'' ''Backend Intern'' ''NYC'' [] [])"
proof -
  obtain content where "encode_utf8 (hash_content j) = Inr content"
    and "get_hash j = Inr (hexdigest (md5 content))"
    using get_hash_returns [OF assms] by blast
  then have a: "\<exists>content.
      encode_utf8 (format_value (company_name j) @ format_value (title j) @
                   format_value (location j)) = Inr content
      \<and> get_hash j = Inr (hexdigest (md5 content)) \<and> length (md5 content) = 16"
    by (auto simp: hash_content_def length_md5)
  have b: "get_hash (j\<lparr>posted_date := p, description := d, url := u\<rparr>) = get_hash j"
    by (rule get_hash_cong) (simp add: hash_content_def)
  have c: "valid_str (hash_content j) \<and> valid_str (hash_content j')
        \<and> hash_content j' \<noteq> hash_content j
        \<and> encode_utf8 (hash_content j) = Inr x \<and> encode_utf8 (hash_content j') = Inr y
        \<longrightarrow> x \<noteq> y"
    using encode_utf8_inj [of "hash_content j'" "hash_content j" x] by blast
  have d: "encode_utf8 (hash_content j) = Inr x \<and> encode_utf8 (hash_content j') = Inr y
        \<longrightarrow> (get_hash j = get_hash j' \<longleftrightarrow> md5 x = md5 y)"
    by (auto simp: get_hash_def dest: hexdigest_inj)
  have e: "get_hash (job_of ''acme'' ''Backend Intern'' ''NYC'' [] []) \<noteq>
       get_hash (job_of ''Acme'' ''Backend Intern'' ''NYC'' [] [])"
    by (simp add: get_hash_lowercase get_hash_acme_backend)
  have f: "get_hash (job_of ''Acme'' ''Backend  Intern'' ''NYC'' [] []) \<noteq>
       get_hash (job_of ''Acme'' ''Backend Intern'' ''NYC'' [] [])"
    by (simp add: get_hash_doubled_space get_hash_acme_backend)
  from a b c d e f show ?thesis by blast
qed

theorem get_hash_md5_of_concatenation_witness:
  "no_surrogates (hash_content acme_backend_a)
   \<and> valid_str (hash_content acme_backend_a)
   \<and> valid_str (hash_content (job_of ''acme'' ''Backend Intern'' ''NYC'' [] []))
   \<and> hash_content (job_of ''acme'' ''Backend Intern'' ''NYC'' [] []) \<noteq>
       hash_content acme_backend_a
   \<and> encode_utf8 (hash_content acme_backend_a) = Inr (map of_char ''AcmeBackend InternNYC'')
   \<and> encode_utf8 (hash_content (job_of ''acme'' ''Backend Intern'' ''NYC'' [] [])) =
       Inr (map of_char ''acmeBackend InternNYC'')
   \<and> get_hash acme_backend_a = Inr ''c2ba8e2938c8c0d460ed3586bd4d27a9''
   \<and> get_hash (acme_backend_a\<lparr>posted_date := PyNone, description := PyNone, url := PyNone\<rparr>)
       = Inr ''c2ba8e2938c8c0d460ed3586bd4d27a9''
   \<and> map of_char ''AcmeBackend InternNYC'' \<noteq> (map of_char ''acmeBackend InternNYC'' :: bytes)
   \<and> md5 (map of_char ''AcmeBackend InternNYC'') \<noteq> md5 (map of_char ''acmeBackend InternNYC'')"
proof -
  let ?l = "job_of ''acme'' ''Backend Intern'' ''NYC'' [] []"
  let ?x = "map of_char ''AcmeBackend InternNYC'' :: bytes"
  let ?y = "map of_char ''acmeBackend InternNYC'' :: bytes"
  have ta: "hash_content acme_backend_a = lit ''AcmeBackend InternNYC''"
    by (simp add: acme_backend_a_def hash_content_job_of)
  have tl: "hash_content ?l = lit ''acmeBackend InternNYC''"
    by (simp add: hash_content_job_of)
  have n: "no_surrogates (hash_content acme_backend_a)"
    unfolding ta by (simp add: no_surrogates_def is_surrogate_def lit_def)
  have v: "valid_str (hash_content acme_backend_a)" "valid_str (hash_content ?l)"
    unfolding ta tl by (simp_all add: valid_str_def lit_def)
  have ne: "hash_content ?l \<noteq> hash_content acme_backend_a"
    unfolding ta tl by (simp add: lit_def)
  have ex: "encode_utf8 (hash_content acme_backend_a) = Inr ?x"
    unfolding ta by (simp add: lit_def encode_codepoint_def)
  have ey: "encode_utf8 (hash_content ?l) = Inr ?y"
    unfolding tl by (simp add: lit_def encode_codepoint_def)
  have g: "get_hash acme_backend_a \<noteq> get_hash ?l"
    by (simp add: get_hash_acme_backend_a get_hash_lowercase)
  note t = get_hash_md5_of_concatenation [OF n, of PyNone PyNone PyNone ?l ?x ?y]
  from t v ne ex ey have "?x \<noteq> ?y" by blast
  moreover from t ex ey g have "md5 ?x \<noteq> md5 ?y" by blast
  moreover from t have "get_hash (acme_backend_a\<lparr>posted_date := PyNone, description := PyNone,
      url := PyNone\<rparr>) = Inr ''c2ba8e2938c8c0d460ed3586bd4d27a9''"
    by (simp add: get_hash_acme_backend_a)
  ultimately show ?thesis
    using n v ne ex ey by (simp add: get_hash_acme_backend_a)
qed

text \<open>
  C4. Pairwise distinct (company, title, location) do not give pairwise distinct
  fingerprints. The thousand records of \<open>colliding_batch\<close> have pairwise distinct
  triples, and the first two, \<open>ab\<close>, \<open>c\<close>, \<open>d\<close> and \<open>a\<close>, \<open>bc\<close>, \<open>d\<close>, have the same
  fingerprint: the f-string joins the three fields with nothing in between.
\<close>

theorem distinct_triples_same_fingerprint:
  "length colliding_batch = 1000
   \<and> distinct (map identity_triple colliding_batch)
   \<and> get_hash (colliding_batch ! 0) = get_hash (colliding_batch ! 1)
   \<and> \<not> distinct (map get_hash colliding_batch)"
proof -
  have "get_hash (job_of ''ab'' ''c'' ''d'' [] []) = get_hash (job_of ''a'' ''bc'' ''d'' [] [])"
    by (rule get_hash_cong) (simp add: hash_content_job_of)
  then have "get_hash (colliding_batch ! 0) = get_hash (colliding_batch ! 1)"
    and "\<not> distinct (map get_hash colliding_batch)"
    by (simp_all add: colliding_batch_def)
  moreover have "length colliding_batch = 1000"
    by (simp add: colliding_batch_def)
  ultimately show ?thesis using colliding_batch_triples_distinct by simp
qed

text \<open>
  C6, as it stands, fails: the record with an absent company name and the record with
  the empty company name in its place have different fingerprints.
\<close>

theorem absent_company_not_empty:
  "company_name no_company = PyNone
   \<and> empty_company = no_company\<lparr>company_name := PyStr []\<rparr>
   \<and> get_hash no_company \<noteq> get_hash empty_company"
  by (simp add: get_hash_no_company get_hash_empty_company)
     (simp add: no_company_def empty_company_def)

text \<open>
  C6, amended. The fingerprint computation raises exactly when the text formed from
  company name, title and location holds a surrogate code point, and returns a
  fingerprint otherwise. An absent field is not replaced by the empty string: it
  enters the text as the four letters \<open>None\<close>.
\<close>

theorem get_hash_raises_iff_surrogate:
  "(get_hash j = Inl UnicodeEncodeError \<longleftrightarrow> \<not> no_surrogates (hash_content j))
   \<and> ((\<exists>h. get_hash j = Inr h) \<longleftrightarrow> no_surrogates (hash_content j))
   \<and> get_hash (j\<lparr>company_name := PyNone\<rparr>) = get_hash (j\<lparr>company_name := PyStr (lit ''None'')\<rparr>)
   \<and> get_hash (j\<lparr>title := PyNone\<rparr>) = get_hash (j\<lparr>title := PyStr (lit ''None'')\<rparr>)
   \<and> get_hash (j\<lparr>location := PyNone\<rparr>) = get_hash (j\<lparr>location := PyStr (lit ''None'')\<rparr>)"
proof -
  have a: "get_hash j = Inl UnicodeEncodeError \<longleftrightarrow> \<not> no_surrogates (hash_content j)"
    by (simp add: get_hash_Inl_iff)
  have b: "(\<exists>h. get_hash j = Inr h) \<longleftrightarrow> no_surrogates (hash_content j)"
  proof (cases "get_hash j")
    case (Inl e)
    then show ?thesis using get_hash_Inl_iff [of j e] by simp
  next
    case (Inr h)
    then show ?thesis using get_hash_Inl_iff [of j UnicodeEncodeError] by simp
  qed
  have c: "get_hash (j\<lparr>company_name := PyNone\<rparr>) = get_hash (j\<lparr>company_name := PyStr (lit ''None'')\<rparr>)"
    by (rule get_hash_cong) (simp add: hash_content_def)
  have d: "get_hash (j\<lparr>title := PyNone\<rparr>) = get_hash (j\<lparr>title := PyStr (lit ''None'')\<rparr>)"
    by (rule get_hash_cong) (simp add: hash_content_def)
  have e: "get_hash (j\<lparr>location := PyNone\<rparr>) = get_hash (j\<lparr>location := PyStr (lit ''None'')\<rparr>)"
    by (rule get_hash_cong) (simp add: hash_content_def)
  from a b c d e show ?thesis by blast
qed

theorem get_hash_raises_iff_surrogate_witness:
  "\<not> no_surrogates (hash_content surrogate_company)
   \<and> get_hash surrogate_company = Inl UnicodeEncodeError
   \<and> no_surrogates (hash_content no_company)
   \<and> get_hash no_company = get_hash (no_company\<lparr>company_name := PyStr (lit ''None'')\<rparr>)"
proof -
  have "\<not> no_surrogates (hash_content surrogate_company)"
    by (simp add: surrogate_company_def hash_content_def no_surrogates_def is_surrogate_def)
  moreover have "no_surrogates (hash_content no_company)"
    by (simp add: no_company_def hash_content_def no_surrogates_lit_None)
  moreover have "no_company\<lparr>company_name := PyNone\<rparr> = no_company"
    by (simp add: no_company_def)
  ultimately show ?thesis
    using get_hash_raises_iff_surrogate [of surrogate_company]
      get_hash_raises_iff_surrogate [of no_company]
    by simp
qed

text \<open>
  C9, as it stands, fails: company name, title and location of this record are
  strings, the company name a lone surrogate, and \<open>get_hash\<close> raises.
\<close>

theorem get_hash_surrogate_raises:
  "company_name surrogate_company = PyStr [0xD800] \<and> title surrogate_company = PyStr []
   \<and> location surrogate_company = PyStr []
   \<and> get_hash surrogate_company = Inl UnicodeEncodeError"
  by (simp add: surrogate_company_def get_hash_def hash_content_def encode_codepoint_def)

text \<open>
  C9, amended. For every record whose company name, title and location are strings
  without surrogate code points, \<open>get_hash\<close> returns a string of exactly 32 characters,
  each a digit or a lower-case letter from \<open>a\<close> to \<open>f\<close>.
\<close>

theorem get_hash_hex32:
  assumes "company_name j = PyStr c" and "title j = PyStr t" and "location j = PyStr l"
    and "no_surrogates c" and "no_surrogates t" and "no_surrogates l"
  shows "\<exists>h. get_hash j = Inr h \<and> length h = 32 \<and> set h \<subseteq> set ''0123456789abcdef''"
proof -
  have "no_surrogates (hash_content j)"
    using assms by (simp add: hash_content_def)
  then obtain content where "get_hash j = Inr (hexdigest (md5 content))"
    using get_hash_returns by blast
  then show ?thesis using hexdigest_md5_shape [of content] by simp
qed

theorem get_hash_hex32_witness:
  "company_name acme_frontend_c = PyStr (lit ''Acme'')
   \<and> title acme_frontend_c = PyStr (lit ''Frontend Intern'')
   \<and> location acme_frontend_c = PyStr (lit ''NYC'')
   \<and> no_surrogates (lit ''Acme'') \<and> no_surrogates (lit ''Frontend Intern'')
   \<and> no_surrogates (lit ''NYC'')
   \<and> (\<exists>h. get_hash acme_frontend_c = Inr h \<and> length h = 32
          \<and> set h \<subseteq> set ''0123456789abcdef'')"
proof -
  have h1: "company_name acme_frontend_c = PyStr (lit ''Acme'')"
    and h2: "title acme_frontend_c = PyStr (lit ''Frontend Intern'')"
    and h3: "location acme_frontend_c = PyStr (lit ''NYC'')"
    by (simp_all add: acme_frontend_c_def job_of_def)
  have s1: "no_surrogates (lit ''Acme'')" and s2: "no_surrogates (lit ''Frontend Intern'')"
    and s3: "no_surrogates (lit ''NYC'')"
    by (simp_all add: no_surrogates_def is_surrogate_def lit_def)
  show ?thesis
    using h1 h2 h3 s1 s2 s3 get_hash_hex32 [OF h1 h2 h3 s1 s2 s3] by blast
qed

text \<open>
  C10. \<open>to\<close> returns a mapping with exactly the six keys \<open>title\<close>, \<open>company_name\<close>,
  \<open>location\<close>, \<open>posted_date\<close>, \<open>description\<close> and \<open>url\<close>, each once and each mapped to the
  value of that field of the record.
\<close>

theorem to_six_fields:
  "map fst (to j) =
     [''title'', ''company_name'', ''location'', ''posted_date'', ''description'', ''url'']
   \<and> distinct (map fst (to j))
   \<and> map_of (to j) ''title'' = Some (title j)
   \<and> map_of (to j) ''company_name'' = Some (company_name j)
   \<and> map_of (to j) ''location'' = Some (location j)
   \<and> map_of (to j) ''posted_date'' = Some (posted_date j)
   \<and> map_of (to j) ''description'' = Some (description j)
   \<and> map_of (to j) ''url'' = Some (url j)"
  by (simp add: to_def)

theorem to_six_fields_witness:
  "map fst (to acme_backend_a) =
     [''title'', ''company_name'', ''location'', ''posted_date'', ''description'', ''url'']
   \<and> map_of (to acme_backend_a) ''company_name'' = Some (PyStr (lit ''Acme''))
   \<and> map_of (to acme_backend_a) ''description'' = Some PyNone
   \<and> map_of (to acme_backend_a) ''url'' = Some (PyStr (lit ''A''))"
  using to_six_fields [of acme_backend_a] by (simp add: acme_backend_a_def job_of_def)

text \<open>
  C8. The renderer does not produce the listing for every list of jobs. Of these two
  jobs the second has no posted date, as the scraper builds a record from a card
  without a \<open>time\<close> element; sorting compares \<open>None\<close> with a string, \<open>TypeError\<close> is
  raised and no section is written. Where every job has a posted date the listing is
  the one of \<open>markdown_content_dated\<close>, newest first.
\<close>

theorem export_to_markdown_undated_raises:
  "posted_date undated = PyNone
   \<and> posted_dates [to acme_backend_a, to undated] = Inr [PyStr (lit ''2025-05-01''), PyNone]
   \<and> export_to_markdown [to acme_backend_a, to undated] = Inl TypeError"
proof -
  have d: "posted_dates (map to [acme_backend_a, undated]) =
      Inr [PyStr (lit ''2025-05-01''), PyNone]"
    unfolding posted_dates_to by (simp add: acme_backend_a_def job_of_def undated_def)
  then have "sorted_by_posted_date [to acme_backend_a, to undated] = Inl TypeError"
    by (simp add: sorted_by_posted_date_def then_do_def)
  then have "export_to_markdown [to acme_backend_a, to undated] = Inl TypeError"
    by (simp add: export_to_markdown_def markdown_content_def then_do_def)
  with d show ?thesis by (simp add: undated_def)
qed

end
